theory Spec2Isabelle
  imports Main "HOL-Library.Word"
begin

unbundle bit_operations_syntax

section \<open>gclone: bytes, integers and errors\<close>

text \<open>
  The program is a single Go file, \<^verbatim>\<open>main.go\<close>. Go's \<^verbatim>\<open>byte\<close> is an
  8-bit word and \<^verbatim>\<open>int64\<close> a 64-bit word read in two's complement (\<open>sint\<close>).
  Offsets into a slice (\<^verbatim>\<open>off\<close>) and lengths are natural numbers: they are
  bounded by the length of the slice they index, so no wrap-around can occur on them.
  Every \<^verbatim>\<open>fmt.Errorf\<close> site of the source is one constructor of \<open>error\<close>;
  \<open>Panic\<close> is a Go run-time panic (index or slice bounds out of range).
\<close>

type_synonym byte = "8 word"
type_synonym int64 = "64 word"

datatype error =
    ChecksumFailed
  | PackTooShort nat
  | BadMagic
  | UnexpectedEnd nat
  | BadObjectType byte
  | SizeTooLarge nat
  | RefHashTruncated
  | ZlibNewReaderFailed
  | ZlibReadAllFailed
  | SizeMismatch int nat
  | WriteObjectFailed error
  | MkdirFailed string
  | CompressFailed
  | WriteFileFailed string
  | ReadFileFailed string
  | DecompressFailed
  | NoNullByte string
  | NoSpaceByte string
  | InvalidSize
  | DeclaredSizeMismatch int nat
  | VarintEnd nat
  | VarintTooLarge nat
  | SourceSizeParse error
  | TargetSizeParse error
  | SourceSizeMismatch int nat
  | CopyOutOfRange
  | InstSizeMismatch
  | TargetSizeMismatch int nat
  | Panic

section \<open>Varint-B: \<^verbatim>\<open>parseVarInt\<close>\<close>

text \<open>
  \<^verbatim>\<open>parseVarInt\<close> (main.go, lines 664-691). The loop variables are \<^verbatim>\<open>off\<close>,
  \<^verbatim>\<open>value\<close> (an \<^verbatim>\<open>int64\<close>) and \<^verbatim>\<open>shift\<close> (an \<^verbatim>\<open>int8\<close>, compared as a signed
  number). The source increments \<^verbatim>\<open>off\<close> before the test on \<^verbatim>\<open>shift\<close> and reports
  \<^verbatim>\<open>off-1\<close>, which is the offset of the byte just read. A shift by a negative count
  would panic in Go.
\<close>

function parseVarInt_loop :: "byte list \<Rightarrow> nat \<Rightarrow> int64 \<Rightarrow> 8 word \<Rightarrow> error + (int64 \<times> nat)" where
  "parseVarInt_loop data off val shift =
     (if length data \<le> off then Inl (VarintEnd off)
      else if 60 < sint shift then Inl (VarintTooLarge off)
      else if sint shift < 0 then Inl Panic
      else if (data ! off) AND 0x80 = 0
        then Inr (val OR push_bit (nat (sint shift)) (ucast ((data ! off) AND 0x7F)), off + 1)
        else parseVarInt_loop data (off + 1)
               (val OR push_bit (nat (sint shift)) (ucast ((data ! off) AND 0x7F))) (shift + 7))"
  by pat_completeness auto
termination
  by (relation "measure (\<lambda>(data, off, val, shift). length data - off)") auto

definition parseVarInt :: "byte list \<Rightarrow> error + (int64 \<times> nat)" where
  "parseVarInt data = parseVarInt_loop data 0 0 0"

declare parseVarInt_loop.simps [simp del]

section \<open>Varint-A: the size field of an object record\<close>

text \<open>
  The size decoding inside \<^verbatim>\<open>parsePackfile\<close>: the first byte gives the low four
  bits, and while the continuation bit is set a tail byte gives seven more bits at
  shifts 4, 11, 18, ... (\<^verbatim>\<open>shift\<close> is a Go \<^verbatim>\<open>int\<close> that stays below 68).
  \<open>sizeTail_or\<close> is the loop of the current revision (main.go, lines 580-607, with
  \<^verbatim>\<open>objSize |= ...\<close>); \<open>sizeTail_add\<close> is the loop of the earlier revision
  (main.go, lines 155-182, with \<^verbatim>\<open>objSize += ...\<close>). \<open>off\<close> is the offset after the
  first byte \<open>byt\<close> of the record.
\<close>

function sizeTail_or :: "byte list \<Rightarrow> nat \<Rightarrow> int64 \<Rightarrow> nat \<Rightarrow> error + (int64 \<times> nat)" where
  "sizeTail_or pack off objSize shift =
     (if length pack \<le> off then Inl (UnexpectedEnd off)
      else if 60 < shift then Inl (SizeTooLarge off)
      else if (pack ! off) AND 0x80 = 0
        then Inr (objSize OR push_bit shift (ucast ((pack ! off) AND 0x7F)), off + 1)
        else sizeTail_or pack (off + 1)
               (objSize OR push_bit shift (ucast ((pack ! off) AND 0x7F))) (shift + 7))"
  by pat_completeness auto
termination
  by (relation "measure (\<lambda>(pack, off, objSize, shift). length pack - off)") auto

function sizeTail_add :: "byte list \<Rightarrow> nat \<Rightarrow> int64 \<Rightarrow> nat \<Rightarrow> error + (int64 \<times> nat)" where
  "sizeTail_add pack off objSize shift =
     (if length pack \<le> off then Inl (UnexpectedEnd off)
      else if 60 < shift then Inl (SizeTooLarge off)
      else if (pack ! off) AND 0x80 = 0
        then Inr (objSize + push_bit shift (ucast ((pack ! off) AND 0x7F)), off + 1)
        else sizeTail_add pack (off + 1)
               (objSize + push_bit shift (ucast ((pack ! off) AND 0x7F))) (shift + 7))"
  by pat_completeness auto
termination
  by (relation "measure (\<lambda>(pack, off, objSize, shift). length pack - off)") auto

definition decodeSize_or :: "byte list \<Rightarrow> nat \<Rightarrow> byte \<Rightarrow> error + (int64 \<times> nat)" where
  "decodeSize_or pack off byt =
     (if byt AND 0x80 \<noteq> 0 then sizeTail_or pack off (ucast (byt AND 0xF)) 4
      else Inr (ucast (byt AND 0xF), off))"

definition decodeSize_add :: "byte list \<Rightarrow> nat \<Rightarrow> byte \<Rightarrow> error + (int64 \<times> nat)" where
  "decodeSize_add pack off byt =
     (if byt AND 0x80 \<noteq> 0 then sizeTail_add pack off (ucast (byt AND 0xF)) 4
      else Inr (ucast (byt AND 0xF), off))"

declare sizeTail_or.simps [simp del] sizeTail_add.simps [simp del]

subsection \<open>The two size decoders agree\<close>

lemma bit_low7: "bit ((b::byte) AND 0x7F) k \<Longrightarrow> k < 7"
proof -
  have "(0x7F::byte) = mask 7" by (simp add: mask_eq_exp_minus_1)
  then show "bit (b AND 0x7F) k \<Longrightarrow> k < 7" by (simp add: bit_and_iff bit_mask_iff)
qed

lemma bit_low4: "bit ((b::byte) AND 0xF) k \<Longrightarrow> k < 4"
proof -
  have "(0xF::byte) = mask 4" by (simp add: mask_eq_exp_minus_1)
  then show "bit (b AND 0xF) k \<Longrightarrow> k < 4" by (simp add: bit_and_iff bit_mask_iff)
qed

lemma tail_bits:
  "bit (push_bit shift (ucast ((b::byte) AND 0x7F)) :: int64) n \<Longrightarrow> shift \<le> n \<and> n < shift + 7"
  by (auto simp: bit_push_bit_iff bit_ucast_iff dest!: bit_low7)

lemma tail_add_eq_or:
  assumes "\<forall>n. bit (s::int64) n \<longrightarrow> n < shift"
  shows "s + push_bit shift (ucast ((b::byte) AND 0x7F)) = s OR push_bit shift (ucast (b AND 0x7F))"
proof (rule disjunctive_add)
  fix n
  show "\<not> bit s n \<or> \<not> bit (push_bit shift (ucast (b AND 0x7F)) :: int64) n"
    using assms tail_bits [of shift b n] by fastforce
qed

lemma tail_inv:
  assumes "\<forall>n. bit (s::int64) n \<longrightarrow> n < shift"
  shows "\<forall>n. bit (s OR push_bit shift (ucast ((b::byte) AND 0x7F))) n \<longrightarrow> n < shift + 7"
  using assms tail_bits [of shift b] by (fastforce simp: bit_or_iff)

lemma sizeTail_add_eq_or:
  "\<forall>n. bit objSize n \<longrightarrow> n < shift \<Longrightarrow>
   sizeTail_add pack off objSize shift = sizeTail_or pack off objSize shift"
proof (induction pack off objSize shift rule: sizeTail_or.induct)
  case (1 pack off objSize shift)
  let ?t = "push_bit shift (ucast ((pack ! off) AND 0x7F)) :: int64"
  have eq: "objSize + ?t = objSize OR ?t"
    using "1.prems" by (rule tail_add_eq_or)
  have inv: "\<forall>n. bit (objSize OR ?t) n \<longrightarrow> n < shift + 7"
    using "1.prems" by (rule tail_inv)
  show ?case
  proof (cases "length pack \<le> off \<or> 60 < shift \<or> (pack ! off) AND 0x80 = 0")
    case True
    then show ?thesis
      by (subst sizeTail_add.simps, subst sizeTail_or.simps) (auto simp: eq)
  next
    case False
    then have "sizeTail_add pack (off + 1) (objSize OR ?t) (shift + 7)
             = sizeTail_or pack (off + 1) (objSize OR ?t) (shift + 7)"
      using "1.IH" inv by simp
    with False show ?thesis
      by (subst sizeTail_add.simps, subst sizeTail_or.simps) (simp add: eq)
  qed
qed

text \<open>
  Claim C9. The size decoder that accumulates the tail bytes with \<^verbatim>\<open>+=\<close> and the one
  that accumulates them with \<^verbatim>\<open>|=\<close> return the same size and offset, and the same
  error, on every input: the bits of each tail byte lie strictly above the bits
  accumulated so far, so the 64-bit addition carries nowhere.
\<close>

theorem decodeSize_add_eq_or:
  "decodeSize_add pack off byt = decodeSize_or pack off byt"
proof -
  have "\<forall>n. bit (ucast (byt AND 0xF) :: int64) n \<longrightarrow> n < 4"
    by (auto simp: bit_ucast_iff dest: bit_low4)
  then show ?thesis
    by (simp add: decodeSize_add_def decodeSize_or_def sizeTail_add_eq_or)
qed

subsection \<open>\<^verbatim>\<open>parseVarInt\<close> is total and its value is non-negative\<close>

lemma sint_shift_step:
  "sint (shift :: 8 word) = 7 * int off \<Longrightarrow> off \<le> 8 \<Longrightarrow> sint (shift + 7) = 7 * int (off + 1)"
  by (simp add: sint_word_ariths signed_take_bit_int_eq_self)

definition varint_ok :: "byte list \<Rightarrow> nat \<Rightarrow> error + (int64 \<times> nat) \<Rightarrow> bool" where
  "varint_ok data off r =
     (case r of
        Inr (v, n) \<Rightarrow> (\<forall>k. bit v k \<longrightarrow> k < 63) \<and> off < n \<and> n \<le> 9 \<and> n \<le> length data
      | Inl e \<Rightarrow> (\<exists>k. e = VarintEnd k) \<or> (\<exists>k. e = VarintTooLarge k))"

lemma parseVarInt_loop_ok:
  "off \<le> 9 \<Longrightarrow> sint shift = 7 * int off \<Longrightarrow> \<forall>n. bit val n \<longrightarrow> n < 7 * off \<Longrightarrow>
   varint_ok data off (parseVarInt_loop data off val shift)"
proof (induction data off val shift rule: parseVarInt_loop.induct)
  case (1 data off val shift)
  have s: "sint shift = 7 * int off" using "1.prems" by simp
  let ?v = "val OR push_bit (nat (sint shift)) (ucast ((data ! off) AND 0x7F))"
  have inv: "\<forall>n. bit ?v n \<longrightarrow> n < 7 * off + 7"
  proof -
    have "nat (sint shift) = 7 * off" using s by simp
    then show ?thesis using tail_inv [OF "1.prems"(3), of "data ! off"] by simp
  qed
  show ?case
  proof (cases "length data \<le> off")
    case True
    then show ?thesis by (subst parseVarInt_loop.simps) (simp add: varint_ok_def)
  next
    case False
    note inb = this
    show ?thesis
    proof (cases "off = 9")
      case True
      with s have "60 < sint shift" by simp
      with inb show ?thesis by (subst parseVarInt_loop.simps) (simp add: varint_ok_def)
    next
      case False
      with "1.prems" have o8: "off \<le> 8" by simp
      with s have ns: "\<not> 60 < sint shift" "\<not> sint shift < 0" by simp_all
      show ?thesis
      proof (cases "(data ! off) AND 0x80 = 0")
        case True
        have "\<forall>n. bit ?v n \<longrightarrow> n < 63" using inv o8 by fastforce
        with True inb ns o8 show ?thesis
          by (subst parseVarInt_loop.simps) (simp add: varint_ok_def)
      next
        case False
        have "varint_ok data (off + 1) (parseVarInt_loop data (off + 1) ?v (shift + 7))"
        proof (rule "1.IH")
          show "\<not> length data \<le> off" by (rule inb)
          show "\<not> 60 < sint shift" "\<not> sint shift < 0" by (rule ns)+
          show "(data ! off) AND 0x80 \<noteq> 0" by (rule False)
          show "off + 1 \<le> 9" using o8 by simp
          show "sint (shift + 7) = 7 * int (off + 1)" using s o8 by (rule sint_shift_step)
          show "\<forall>n. bit ?v n \<longrightarrow> n < 7 * (off + 1)" using inv by (simp add: add.commute)
        qed
        then have "varint_ok data off (parseVarInt_loop data (off + 1) ?v (shift + 7))"
          by (auto simp: varint_ok_def split: sum.splits)
        with False inb ns show ?thesis
          by (subst parseVarInt_loop.simps) simp
      qed
    qed
  qed
qed

lemma sint_nonneg_bits: "\<forall>k. bit (v::int64) k \<longrightarrow> k < 63 \<Longrightarrow> 0 \<le> sint v"
  using bit_last_iff [of v] by fastforce

text \<open>
  Claim C10. On every input \<^verbatim>\<open>parseVarInt\<close> returns: either a value that is
  non-negative as an \<^verbatim>\<open>int64\<close> (no bit at position 63) with a consumed-byte count
  between 1 and 9 (and within the data), or one of its two errors. It never panics,
  and being a total function of the logic it never loops.
\<close>

theorem parseVarInt_total_nonneg:
  "(\<exists>v n. parseVarInt data = Inr (v, n) \<and> 0 \<le> sint v \<and> 1 \<le> n \<and> n \<le> 9 \<and> n \<le> length data)
   \<or> (\<exists>k. parseVarInt data = Inl (VarintEnd k))
   \<or> (\<exists>k. parseVarInt data = Inl (VarintTooLarge k))"
proof -
  have "varint_ok data 0 (parseVarInt_loop data 0 0 0)"
    by (rule parseVarInt_loop_ok) simp_all
  then show ?thesis
    by (auto simp: parseVarInt_def varint_ok_def sint_nonneg_bits split: sum.splits)
qed

section \<open>Delta instructions\<close>

text \<open>
  A Go slice has a length and a capacity, and a slice expression \<^verbatim>\<open>s[a:b]\<close> is checked
  against the capacity, not the length. \<open>elems\<close> are the bytes of the slice (up to its
  length) and \<open>spare\<close> the bytes of its backing array between length and capacity.
  Indexing \<^verbatim>\<open>s[i]\<close> is checked against the length.
\<close>

record bslice =
  elems :: "byte list"
  spare :: "byte list"

definition INST_TYPE_ADD :: byte where "INST_TYPE_ADD = 0"
definition INST_TYPE_COPY :: byte where "INST_TYPE_COPY = 1"

record Instruction =
  instType :: byte
  size_i :: int64
  offset :: int64
  data_i :: "byte list"

text \<open>
  The two inner loops of \<^verbatim>\<open>parseInstructions\<close> (main.go, lines 707-721),
  \<^verbatim>\<open>for i := 0; i < n; i++ { if bits & (1 << i) != 0 { acc |= int64(data[off]) << (8*i); off++ } }\<close>,
  with \<open>n = 4\<close> for the offset and \<open>n = 3\<close> for the size. \<^verbatim>\<open>data[off]\<close> panics when
  \<open>off\<close> is not below the length.
\<close>

function copyField :: "byte list \<Rightarrow> nat \<Rightarrow> byte \<Rightarrow> nat \<Rightarrow> nat \<Rightarrow> int64 \<Rightarrow> error + (int64 \<times> nat)" where
  "copyField data off bits n i acc =
     (if n \<le> i then Inr (acc, off)
      else if bits AND push_bit i 1 \<noteq> 0 then
        (if length data \<le> off then Inl Panic
         else copyField data (off + 1) bits n (i + 1) (acc OR push_bit (8 * i) (ucast (data ! off))))
      else copyField data off bits n (i + 1) acc)"
  by pat_completeness auto
termination
  by (relation "measure (\<lambda>(data, off, bits, n, i, acc). n - i)") auto

declare copyField.simps [simp del]

text \<open>
  One iteration of the outer loop of \<^verbatim>\<open>parseInstructions\<close> (main.go, lines 697-736),
  entered with \<open>off < len(data)\<close>: it returns the instruction and the next offset. For an
  insert, \<^verbatim>\<open>data[off : off+inst.size]\<close> panics only when \<open>off + size\<close> exceeds the
  capacity; within the capacity it yields \<open>size\<close> bytes, read past the length if need be.
\<close>

definition parseInstruction :: "bslice \<Rightarrow> nat \<Rightarrow> error + (Instruction \<times> nat)" where
  "parseInstruction data off =
     (let byt = elems data ! off in
      if byt AND 0x80 \<noteq> 0 then
        (case copyField (elems data) (off + 1) (byt AND 0xF) 4 0 0 of
           Inl e \<Rightarrow> Inl e
         | Inr (offset', off1) \<Rightarrow>
             (case copyField (elems data) off1 (drop_bit 4 byt AND 0x7) 3 0 0 of
                Inl e \<Rightarrow> Inl e
              | Inr (size', off2) \<Rightarrow>
                  Inr (\<lparr>instType = INST_TYPE_COPY,
                        size_i = (if size' = 0 then 0x10000 else size'),
                        offset = offset', data_i = []\<rparr>, off2)))
      else
        (let n = unat (byt AND 0x7F) in
         if length (elems data) + length (spare data) < off + 1 + n then Inl Panic
         else Inr (\<lparr>instType = INST_TYPE_ADD, size_i = ucast (byt AND 0x7F), offset = 0,
                    data_i = take n (drop (off + 1) (elems data @ spare data))\<rparr>,
                   off + 1 + n)))"

lemma copyField_off: "copyField data off bits n i acc = Inr (v, off') \<Longrightarrow> off \<le> off'"
proof (induction data off bits n i acc rule: copyField.induct)
  case (1 data off bits n i acc)
  then show ?case
    by (subst (asm) (3) copyField.simps) (auto split: if_splits)
qed

lemma parseInstruction_off: "parseInstruction data off = Inr (inst, off') \<Longrightarrow> off < off'"
  by (auto simp: parseInstruction_def Let_def split: if_splits sum.splits dest!: copyField_off)

function parseInstructions_loop :: "bslice \<Rightarrow> nat \<Rightarrow> Instruction list \<Rightarrow> error + (Instruction list \<times> nat)" where
  "parseInstructions_loop data off insts =
     (if off < length (elems data) then
        (case parseInstruction data off of
           Inl e \<Rightarrow> Inl e
         | Inr (inst, off') \<Rightarrow> parseInstructions_loop data off' (insts @ [inst]))
      else Inr (insts, off))"
  by pat_completeness auto
termination
  by (relation "measure (\<lambda>(data, off, insts). length (elems data) - off)")
     (auto dest: parseInstruction_off)

declare parseInstructions_loop.simps [simp del]

definition parseInstructions :: "bslice \<Rightarrow> error + (Instruction list \<times> nat)" where
  "parseInstructions data = parseInstructions_loop data 0 []"

text \<open>
  The body of the loop over the instructions in \<^verbatim>\<open>processRefDeltaObjs\<close> (main.go, lines
  771-788). The sum \<^verbatim>\<open>inst.offset+inst.size\<close> is an \<^verbatim>\<open>int64\<close> addition. The slice
  \<^verbatim>\<open>srcContent[lo:hi]\<close> is reached with \<open>hi \<le> len(srcContent)\<close>, and panics unless
  \<open>0 \<le> lo \<le> hi\<close>.
\<close>

definition applyInstruction :: "byte list \<Rightarrow> byte list \<Rightarrow> Instruction \<Rightarrow> error + byte list" where
  "applyInstruction srcContent trgContent inst =
     (if instType inst = INST_TYPE_COPY then
        (if int (length srcContent) < sint (offset inst + size_i inst) then Inl CopyOutOfRange
         else if 0 \<le> sint (offset inst) \<and> sint (offset inst) \<le> sint (offset inst + size_i inst)
           then Inr (trgContent @ take (nat (sint (offset inst + size_i inst)) - nat (sint (offset inst)))
                                   (drop (nat (sint (offset inst))) srcContent))
           else Inl Panic)
      else
        (if sint (size_i inst) \<noteq> int (length (data_i inst)) then Inl InstSizeMismatch
         else Inr (trgContent @ data_i inst)))"

fun applyInstructions :: "byte list \<Rightarrow> byte list \<Rightarrow> Instruction list \<Rightarrow> error + byte list" where
  "applyInstructions srcContent trgContent [] = Inr trgContent"
| "applyInstructions srcContent trgContent (inst # insts) =
     (case applyInstruction srcContent trgContent inst of
        Inl e \<Rightarrow> Inl e
      | Inr trgContent' \<Rightarrow> applyInstructions srcContent trgContent' insts)"

text \<open>
  The part of one iteration of \<^verbatim>\<open>processRefDeltaObjs\<close> between reading the base and
  writing the target (main.go, lines 760-795): the check of the declared source size,
  \<^verbatim>\<open>parseInstructions\<close> on the rest of the delta data, the instruction loop, and the
  check of the declared target size.
\<close>

definition buildTarget :: "byte list \<Rightarrow> int64 \<Rightarrow> int64 \<Rightarrow> bslice \<Rightarrow> error + byte list" where
  "buildTarget srcContent srcSize trgSize rest =
     (if int (length srcContent) \<noteq> sint srcSize
        then Inl (SourceSizeMismatch (sint srcSize) (length srcContent))
      else
        (case parseInstructions rest of
           Inl e \<Rightarrow> Inl e
         | Inr (insts, read) \<Rightarrow>
             (case applyInstructions srcContent [] insts of
                Inl e \<Rightarrow> Inl e
              | Inr trgContent \<Rightarrow>
                  if int (length trgContent) \<noteq> sint trgSize
                    then Inl (TargetSizeMismatch (sint trgSize) (length trgContent))
                  else Inr trgContent)))"

subsection \<open>Copy instructions as the format describes them\<close>

text \<open>
  The description of a copy instruction, independent of the decoder. A field is a list
  of optional bytes, one per position: four for the offset, three for the size. The
  bytes present follow the opcode in order (\<open>field_bytes\<close>); position \<open>j\<close> of a field
  that starts at opcode bit \<open>i\<close> is announced by opcode bit \<open>i + j\<close> (\<open>field_mask\<close>) and
  contributes its byte shifted left by \<open>8 * j\<close> (\<open>field_value\<close>, little-endian).
\<close>

fun field_bytes :: "byte option list \<Rightarrow> byte list" where
  "field_bytes [] = []"
| "field_bytes (None # os) = field_bytes os"
| "field_bytes (Some b # os) = b # field_bytes os"

fun field_mask :: "nat \<Rightarrow> byte option list \<Rightarrow> byte" where
  "field_mask i [] = 0"
| "field_mask i (None # os) = field_mask (Suc i) os"
| "field_mask i (Some b # os) = push_bit i 1 OR field_mask (Suc i) os"

fun field_value :: "nat \<Rightarrow> byte option list \<Rightarrow> int64" where
  "field_value i [] = 0"
| "field_value i (None # os) = field_value (Suc i) os"
| "field_value i (Some b # os) = push_bit (8 * i) (ucast b) OR field_value (Suc i) os"

lemma bit_field_mask:
  "bit (field_mask i os) k \<longleftrightarrow> i \<le> k \<and> k < i + length os \<and> k < 8 \<and> os ! (k - i) \<noteq> None"
proof (induction i os rule: field_mask.induct)
  case (1 i)
  then show ?case by simp
next
  case (2 i os)
  then show ?case
    by (auto simp: nth_Cons' Suc_diff_le not_less_eq_eq) 
next
  case (3 i b os)
  then show ?case
    by (auto simp: bit_or_iff bit_exp_iff possible_bit_word nth_Cons' Suc_diff_le not_less_eq_eq)
qed

lemma copyField_fields:
  "i + length os = n \<Longrightarrow> \<forall>j < length os. (bits AND push_bit (i + j) 1 \<noteq> 0) = (os ! j \<noteq> None) \<Longrightarrow>
   data = pre @ field_bytes os @ rest \<Longrightarrow>
   copyField data (length pre) bits n i acc
     = Inr (acc OR field_value i os, length pre + length (field_bytes os))"
proof (induction os arbitrary: i pre acc)
  case Nil
  then show ?case by (subst copyField.simps) simp
next
  case (Cons x os)
  have bit0: "(bits AND push_bit i 1 \<noteq> 0) = (x \<noteq> None)"
    using Cons.prems(2) by (auto dest: spec [of _ 0])
  have rest': "\<forall>j < length os. (bits AND push_bit (Suc i + j) 1 \<noteq> 0) = (os ! j \<noteq> None)"
    using Cons.prems(2) by (auto dest: spec [of _ "Suc j" for j])
  have lt: "i < n" using Cons.prems(1) by simp
  show ?case
  proof (cases x)
    case None
    have "copyField data (length pre) bits n (Suc i) acc
            = Inr (acc OR field_value (Suc i) os, length pre + length (field_bytes os))"
      using Cons.prems(1,3) rest' None by (intro Cons.IH) simp_all
    with None bit0 lt show ?thesis by (subst copyField.simps) simp
  next
    case (Some b)
    have d: "data = (pre @ [b]) @ field_bytes os @ rest" using Cons.prems(3) Some by simp
    have "copyField data (length (pre @ [b])) bits n (Suc i) (acc OR push_bit (8 * i) (ucast b))
            = Inr ((acc OR push_bit (8 * i) (ucast b)) OR field_value (Suc i) os,
                   length (pre @ [b]) + length (field_bytes os))"
      using Cons.prems(1) rest' d by (intro Cons.IH) simp_all
    moreover have "data ! length pre = b" using Cons.prems(3) Some by simp
    moreover have "\<not> length data \<le> length pre" using Cons.prems(3) Some by simp
    ultimately show ?thesis using Some bit0 lt
      by (subst copyField.simps) (simp add: or.assoc)
  qed
qed

subsection \<open>Bounds on the assembled values\<close>

lemma sint_small: "unat (w::int64) < 2 ^ 63 \<Longrightarrow> sint w = int (unat w)"
proof -
  assume a: "unat w < 2 ^ 63"
  have "int (unat w) < 2 ^ 63" using a by (simp flip: of_nat_less_iff [where ?'a = int])
  then have u: "uint w < 2 ^ 63" by simp
  have "(0::int) \<le> uint w" by simp
  moreover have "- (2 ^ 63) \<le> (0::int)" by simp
  ultimately have l: "- (2 ^ 63) \<le> uint w" by (rule order_trans [rotated])
  have "signed_take_bit 63 (uint w) = uint w"
    using l u by (rule signed_take_bit_int_eq_self)
  then show ?thesis by (simp add: sint_uint)
qed

lemma bits_below_unat:
  assumes "\<forall>k. bit (w::int64) k \<longrightarrow> k < n"
  shows "unat w < 2 ^ n"
proof -
  have "take_bit n w = w"
    using assms by (auto intro!: bit_eqI simp: bit_take_bit_iff)
  moreover have "unat (take_bit n w) = take_bit n (unat w)"
    by (rule unsigned_take_bit_eq)
  ultimately have "unat w = take_bit n (unat w)" by simp
  moreover have "take_bit n (unat w) < 2 ^ n" by (rule take_bit_nat_less_exp)
  ultimately show ?thesis by simp
qed

lemma bit_field_value:
  "bit (field_value i os) k \<Longrightarrow> 8 * i \<le> k \<and> k < 8 * (i + length os)"
proof (induction i os rule: field_value.induct)
  case (1 i)
  then show ?case by simp
next
  case (2 i os)
  then show ?case by auto
next
  case (3 i b os)
  then show ?case
    by (auto simp: bit_or_iff bit_push_bit_iff bit_ucast_iff dest: bit_imp_le_length)
qed

lemma field_value_bound: "unat (field_value 0 os) < 2 ^ (8 * length os)"
  by (rule bits_below_unat) (use bit_field_value [of 0 os] in auto)

subsection \<open>Decoding and applying a copy instruction\<close>

text \<open>The opcode of a copy: top bit set, offset positions in bits 0..3, size positions in bits 4..6.\<close>

definition copy_opcode :: "byte option list \<Rightarrow> byte option list \<Rightarrow> byte" where
  "copy_opcode offs szs = 0x80 OR field_mask 0 offs OR field_mask 4 szs"

lemma bit_copy_opcode:
  "length offs = 4 \<Longrightarrow> length szs = 3 \<Longrightarrow>
   bit (copy_opcode offs szs) k \<longleftrightarrow>
     k = 7 \<or> (k < 4 \<and> offs ! k \<noteq> None) \<or> (4 \<le> k \<and> k < 7 \<and> szs ! (k - 4) \<noteq> None)"
proof -
  have "(0x80::byte) = 2 ^ 7" by simp
  then have "bit (0x80::byte) k \<longleftrightarrow> k = 7"
    by (simp only: bit_exp_iff possible_bit_word) auto
  then show "length offs = 4 \<Longrightarrow> length szs = 3 \<Longrightarrow> ?thesis"
    by (auto simp: copy_opcode_def bit_or_iff bit_field_mask)
qed

lemma copy_opcode_top: "length offs = 4 \<Longrightarrow> length szs = 3 \<Longrightarrow> copy_opcode offs szs AND 0x80 \<noteq> 0"
proof -
  assume a: "length offs = 4" "length szs = 3"
  have "bit (copy_opcode offs szs) 7" using a by (simp add: bit_copy_opcode)
  then show ?thesis
    using bit_iff_and_push_bit_not_eq_0 [of "copy_opcode offs szs" 7] by simp
qed

lemma copy_opcode_offs:
  assumes "length offs = 4" "length szs = 3" "j < 4"
  shows "((copy_opcode offs szs AND 0xF) AND push_bit (0 + j) 1 \<noteq> 0) = (offs ! j \<noteq> None)"
proof -
  have m: "(0xF::byte) = mask 4" by (simp add: mask_eq_exp_minus_1)
  have "((copy_opcode offs szs AND 0xF) AND push_bit j 1 \<noteq> 0) = bit (copy_opcode offs szs AND 0xF) j"
    by (simp only: bit_iff_and_push_bit_not_eq_0)
  also have "\<dots> = (offs ! j \<noteq> None)"
    using assms by (simp only: m bit_and_iff bit_mask_iff bit_copy_opcode [OF assms(1,2)] possible_bit_word) auto
  finally show ?thesis by simp
qed

lemma copy_opcode_szs:
  assumes "length offs = 4" "length szs = 3" "j < 3"
  shows "((drop_bit 4 (copy_opcode offs szs) AND 0x7) AND push_bit (0 + j) 1 \<noteq> 0) = (szs ! j \<noteq> None)"
proof -
  have m: "(0x7::byte) = mask 3" by (simp add: mask_eq_exp_minus_1)
  have "((drop_bit 4 (copy_opcode offs szs) AND 0x7) AND push_bit j 1 \<noteq> 0)
          = bit (drop_bit 4 (copy_opcode offs szs) AND 0x7) j"
    by (simp only: bit_iff_and_push_bit_not_eq_0)
  also have "\<dots> = (szs ! j \<noteq> None)"
    using assms(3) by (auto simp: m bit_and_iff bit_mask_iff bit_drop_bit_eq bit_copy_opcode [OF assms(1,2)])
  finally show ?thesis by simp
qed

lemma parseInstruction_copy:
  assumes lo: "length offs = 4" and ls: "length szs = 3"
    and d: "elems data = pre @ copy_opcode offs szs # field_bytes offs @ field_bytes szs @ rest"
  shows "parseInstruction data (length pre) =
           Inr (\<lparr>instType = INST_TYPE_COPY,
                 size_i = (if field_value 0 szs = 0 then 0x10000 else field_value 0 szs),
                 offset = field_value 0 offs, data_i = []\<rparr>,
                length pre + 1 + length (field_bytes offs) + length (field_bytes szs))"
proof -
  let ?op = "copy_opcode offs szs"
  have b: "elems data ! length pre = ?op" using d by simp
  have c1: "copyField (elems data) (length (pre @ [?op])) (?op AND 0xF) 4 0 0
              = Inr (0 OR field_value 0 offs, length (pre @ [?op]) + length (field_bytes offs))"
  proof (rule copyField_fields [where rest = "field_bytes szs @ rest"])
    show "0 + length offs = 4" using lo by simp
    show "\<forall>j<length offs. ((?op AND 0xF) AND push_bit (0 + j) 1 \<noteq> 0) = (offs ! j \<noteq> None)"
      using copy_opcode_offs [OF lo ls] lo by simp
    show "elems data = (pre @ [?op]) @ field_bytes offs @ field_bytes szs @ rest"
      using d by simp
  qed
  have c2: "copyField (elems data) (length (pre @ ?op # field_bytes offs)) (drop_bit 4 ?op AND 0x7) 3 0 0
              = Inr (0 OR field_value 0 szs, length (pre @ ?op # field_bytes offs) + length (field_bytes szs))"
  proof (rule copyField_fields [where rest = rest])
    show "0 + length szs = 3" using ls by simp
    show "\<forall>j<length szs. ((drop_bit 4 ?op AND 0x7) AND push_bit (0 + j) 1 \<noteq> 0) = (szs ! j \<noteq> None)"
      using copy_opcode_szs [OF lo ls] ls by simp
    show "elems data = (pre @ ?op # field_bytes offs) @ field_bytes szs @ rest"
      using d by simp
  qed
  show ?thesis
    using b copy_opcode_top [OF lo ls] c1 c2
    by (simp add: parseInstruction_def Let_def add.assoc)
qed

lemma applyInstruction_copy:
  assumes "instType inst = INST_TYPE_COPY" "unat (offset inst) < 2 ^ 32" "unat (size_i inst) < 2 ^ 32"
  shows "applyInstruction src trg inst =
           (if length src < unat (offset inst) + unat (size_i inst) then Inl CopyOutOfRange
            else Inr (trg @ take (unat (size_i inst)) (drop (unat (offset inst)) src)))"
proof -
  let ?o = "offset inst" and ?s = "size_i inst"
  have sum: "unat ?o + unat ?s < 2 ^ 33" using assms(2,3) by simp
  then have "unat ?o + unat ?s < 2 ^ LENGTH(64)" by simp
  then have u: "unat (?o + ?s) = unat ?o + unat ?s" by (simp only: unat_add_lem)
  have "unat (?o + ?s) < 2 ^ 63" using sum u by simp
  then have s1: "sint (?o + ?s) = int (unat ?o + unat ?s)" using u by (simp only: sint_small)
  have "unat ?o < 2 ^ 63" using assms(2) by simp
  then have s2: "sint ?o = int (unat ?o)" by (rule sint_small)
  have c1: "(int (length src) < sint (?o + ?s)) = (length src < unat ?o + unat ?s)"
    by (simp only: s1 of_nat_less_iff)
  have c2: "0 \<le> sint ?o \<and> sint ?o \<le> sint (?o + ?s)"
    by (simp only: s1 s2 of_nat_le_iff of_nat_0_le_iff) simp
  have c3: "nat (sint (?o + ?s)) = unat ?o + unat ?s"
    by (simp only: s1 nat_int)
  have c4: "nat (sint ?o) = unat ?o"
    by (simp only: s2 nat_int)
  show ?thesis
    unfolding applyInstruction_def
    by (simp only: assms(1) c1 c2 c3 c4 add_diff_cancel_left' simp_thms if_True)
qed

subsection \<open>Complete instruction streams\<close>

text \<open>
  An instruction stream is complete when it is the concatenation of whole instructions:
  a copy opcode followed by all the operand bytes it announces, or an insert opcode
  (top bit clear, count \<open>n < 128\<close> in the low seven bits) followed by its \<open>n\<close> literal bytes.
  The count may be 0: that is the opcode byte 0. \<open>dec_dinst\<close> is the \<^verbatim>\<open>Instruction\<close>
  value the decoder is expected to build.
\<close>

datatype dinst = DCopy "byte option list" "byte option list" | DInsert "byte list"

fun enc_dinst :: "dinst \<Rightarrow> byte list" where
  "enc_dinst (DCopy offs szs) = copy_opcode offs szs # field_bytes offs @ field_bytes szs"
| "enc_dinst (DInsert lit) = of_nat (length lit) # lit"

fun complete_dinst :: "dinst \<Rightarrow> bool" where
  "complete_dinst (DCopy offs szs) = (length offs = 4 \<and> length szs = 3)"
| "complete_dinst (DInsert lit) = (length lit < 128)"

fun dec_dinst :: "dinst \<Rightarrow> Instruction" where
  "dec_dinst (DCopy offs szs) =
     \<lparr>instType = INST_TYPE_COPY,
      size_i = (if field_value 0 szs = 0 then 0x10000 else field_value 0 szs),
      offset = field_value 0 offs, data_i = []\<rparr>"
| "dec_dinst (DInsert lit) =
     \<lparr>instType = INST_TYPE_ADD, size_i = of_nat (length lit), offset = 0, data_i = lit\<rparr>"

lemma small_byte:
  assumes "n < 128"
  shows "(of_nat n :: byte) AND 0x7F = of_nat n" and "(of_nat n :: byte) AND 0x80 = 0"
    and "unat (of_nat n :: byte) = n" and "(ucast (of_nat n :: byte) :: int64) = of_nat n"
proof -
  have m: "(0x7F::byte) = mask 7" by (simp add: mask_eq_exp_minus_1)
  have t: "take_bit 7 n = n" using assms by (simp add: take_bit_nat_eq_self)
  show a: "(of_nat n :: byte) AND 0x7F = of_nat n"
    by (simp only: m flip: take_bit_eq_mask) (simp add: take_bit_of_nat t)
  have "n div 2 ^ 7 = 0" using assms by simp
  then have "\<not> bit n 7" by (simp only: bit_iff_odd) simp
  then have "\<not> bit (of_nat n :: byte) 7"
    by (simp add: bit_of_nat_iff)
  then show "(of_nat n :: byte) AND 0x80 = 0"
    using bit_iff_and_push_bit_not_eq_0 [of "of_nat n :: byte" 7] by simp
  show u: "unat (of_nat n :: byte) = n"
    using assms by (simp add: unat_of_nat)
  show "(ucast (of_nat n :: byte) :: int64) = of_nat n"
    using u by (metis of_nat_unat)
qed

lemma parseInstruction_insert:
  assumes "length lit < 128" "elems data = pre @ of_nat (length lit) # lit @ rest"
  shows "parseInstruction data (length pre) =
           Inr (\<lparr>instType = INST_TYPE_ADD, size_i = of_nat (length lit), offset = 0, data_i = lit\<rparr>,
                length pre + 1 + length lit)"
  using assms(2) small_byte [OF assms(1)]
  by (simp add: parseInstruction_def Let_def)

lemma parseInstruction_dinst:
  assumes "complete_dinst i" "elems data = pre @ enc_dinst i @ rest"
  shows "parseInstruction data (length pre) = Inr (dec_dinst i, length pre + length (enc_dinst i))"
proof (cases i)
  case (DCopy offs szs)
  then show ?thesis
    using assms parseInstruction_copy [of offs szs data pre rest] by simp
next
  case (DInsert lit)
  then show ?thesis
    using assms parseInstruction_insert [of lit data pre rest] by simp
qed

lemma enc_dinst_nonempty: "0 < length (enc_dinst i)"
  by (cases i) simp_all

lemma parseInstructions_loop_complete:
  "list_all complete_dinst is \<Longrightarrow> elems data = pre @ concat (map enc_dinst is) \<Longrightarrow>
   parseInstructions_loop data (length pre) acc
     = Inr (acc @ map dec_dinst is, length pre + length (concat (map enc_dinst is)))"
proof (induction "is" arbitrary: pre acc)
  case Nil
  then show ?case by (subst parseInstructions_loop.simps) simp
next
  case (Cons i "is")
  have c: "complete_dinst i" and cs: "list_all complete_dinst is" using Cons.prems(1) by simp_all
  have d: "elems data = pre @ enc_dinst i @ concat (map enc_dinst is)" using Cons.prems(2) by simp
  have p: "parseInstruction data (length pre) = Inr (dec_dinst i, length pre + length (enc_dinst i))"
    using c d by (rule parseInstruction_dinst)
  have lt: "length pre < length (elems data)" using d enc_dinst_nonempty [of i] by simp
  have "parseInstructions_loop data (length (pre @ enc_dinst i)) (acc @ [dec_dinst i])
          = Inr ((acc @ [dec_dinst i]) @ map dec_dinst is,
                 length (pre @ enc_dinst i) + length (concat (map enc_dinst is)))"
    using cs d by (intro Cons.IH) simp_all
  with p lt show ?case
    by (subst parseInstructions_loop.simps) (simp add: add.assoc)
qed

subsection \<open>The claims on instruction streams\<close>

lemmas instr_eval =
  parseInstructions_def parseInstructions_loop.simps parseInstruction_def copyField.simps
  applyInstruction_def INST_TYPE_ADD_def INST_TYPE_COPY_def buildTarget_def

text \<open>
  Claim C5. For every copy instruction of a delta stream, the decoder assembles the
  offset from the up to four little-endian bytes announced by opcode bits 0..3
  (positions 0, 8, 16, 24) and the size from the up to three bytes announced by opcode
  bits 4..6 (positions 0, 8, 16); a size of 0 becomes 0x10000; applying the instruction
  appends exactly bytes \<open>[offset, offset + size)\<close> of the base, and is rejected with an
  error when that range exceeds the base.
\<close>

theorem copy_instruction_semantics:
  assumes "length offs = 4" and "length szs = 3"
    and "elems data = pre @ copy_opcode offs szs # field_bytes offs @ field_bytes szs @ rest"
    and "inst = \<lparr>instType = INST_TYPE_COPY,
                  size_i = (if field_value 0 szs = 0 then 0x10000 else field_value 0 szs),
                  offset = field_value 0 offs, data_i = []\<rparr>"
  shows "parseInstruction data (length pre)
           = Inr (inst, length pre + 1 + length (field_bytes offs) + length (field_bytes szs))
         \<and> applyInstruction src trg inst =
             (if length src < unat (offset inst) + unat (size_i inst) then Inl CopyOutOfRange
              else Inr (trg @ take (unat (size_i inst)) (drop (unat (offset inst)) src)))
         \<and> (field_value 0 szs = 0 \<longrightarrow> unat (size_i inst) = 0x10000)"
proof -
  have p: "parseInstruction data (length pre)
             = Inr (inst, length pre + 1 + length (field_bytes offs) + length (field_bytes szs))"
    unfolding assms(4) using assms(1-3) by (rule parseInstruction_copy)
  have bo: "unat (offset inst) < 2 ^ 32"
    using field_value_bound [of offs] assms(1,4) by simp
  have "unat (field_value 0 szs) < 2 ^ 24"
    using field_value_bound [of szs] assms(2) by simp
  then have bs: "unat (size_i inst) < 2 ^ 32" using assms(4) by simp
  have a: "applyInstruction src trg inst =
             (if length src < unat (offset inst) + unat (size_i inst) then Inl CopyOutOfRange
              else Inr (trg @ take (unat (size_i inst)) (drop (unat (offset inst)) src)))"
    using bo bs assms(4) by (intro applyInstruction_copy) simp_all
  show ?thesis
    using assms(4) by (intro conjI p a) simp
qed

theorem copy_instruction_semantics_witness:
  "parseInstruction \<lparr>elems = [0x91, 0x02, 0x05, 0x00], spare = []\<rparr> 0
     = Inr (\<lparr>instType = INST_TYPE_COPY, size_i = 5, offset = 2, data_i = []\<rparr>, 3)
   \<and> applyInstruction [1, 2, 3, 4, 5, 6, 7, 8] [9]
        \<lparr>instType = INST_TYPE_COPY, size_i = 5, offset = 2, data_i = []\<rparr> = Inr [9, 3, 4, 5, 6, 7]
   \<and> applyInstruction [1, 2, 3, 4, 5, 6] [9]
        \<lparr>instType = INST_TYPE_COPY, size_i = 5, offset = 2, data_i = []\<rparr> = Inl CopyOutOfRange"
  using copy_instruction_semantics [of "[Some 0x02, None, None, None]" "[Some 0x05, None, None]"
      "\<lparr>elems = [0x91, 0x02, 0x05, 0x00], spare = []\<rparr>" "[]" "[0x00]"
      "\<lparr>instType = INST_TYPE_COPY, size_i = 5, offset = 2, data_i = []\<rparr>" "[1, 2, 3, 4, 5, 6, 7, 8]" "[9]"]
    copy_instruction_semantics [of "[Some 0x02, None, None, None]" "[Some 0x05, None, None]"
      "\<lparr>elems = [0x91, 0x02, 0x05, 0x00], spare = []\<rparr>" "[]" "[0x00]"
      "\<lparr>instType = INST_TYPE_COPY, size_i = 5, offset = 2, data_i = []\<rparr>" "[1, 2, 3, 4, 5, 6]" "[9]"]
  by (simp add: copy_opcode_def)

text \<open>
  Claim C4 says that a malformed instruction stream, for one an opcode byte 0, makes
  delta resolution fail with an error value. The opcode byte 0 is decoded as an insert
  of no bytes and resolution goes on: the stream \<open>00 90 01 00 01 61\<close> over the base
  \<open>b\<close> yields the target \<open>ba\<close>.
\<close>

theorem opcode_zero_accepted_counterexample:
  "parseInstructions \<lparr>elems = [0x00], spare = []\<rparr>
     = Inr ([\<lparr>instType = INST_TYPE_ADD, size_i = 0, offset = 0, data_i = []\<rparr>], 1)
   \<and> buildTarget [0x62] 1 2 \<lparr>elems = [0x00, 0x90, 0x01, 0x00, 0x01, 0x61], spare = []\<rparr>
     = Inr [0x62, 0x61]"
  by (simp add: instr_eval)

text \<open>
  Truncated streams, for the record: a copy whose operand byte is missing panics at
  \<^verbatim>\<open>data[off]\<close>; an insert whose literal bytes are missing reads the backing array past
  the length when the capacity allows it, and panics otherwise. The test
  \<^verbatim>\<open>inst.size != int64(len(inst.data))\<close> never fires after \<^verbatim>\<open>parseInstructions\<close>, since a
  slice expression that returns has the length asked for.
\<close>

lemma truncated_copy_panics:
  "parseInstructions \<lparr>elems = [0x91, 0x02], spare = [0, 0, 0]\<rparr> = Inl Panic"
  by (simp add: instr_eval)

lemma truncated_insert_reads_spare:
  "buildTarget [] 0 3 \<lparr>elems = [0x03, 0x61], spare = [0, 0, 0]\<rparr> = Inr [0x61, 0, 0]"
  by (simp add: instr_eval)

lemma truncated_insert_panics:
  "buildTarget [] 0 3 \<lparr>elems = [0x03, 0x61], spare = [0]\<rparr> = Inl Panic"
  by (simp add: instr_eval)

text \<open>
  Claim C4, as amended. On every complete instruction stream \<^verbatim>\<open>parseInstructions\<close>
  returns the instructions as a value and consumes the whole stream: no error, no panic,
  no read outside the stream (whatever the spare capacity holds). The opcode byte 0 is
  a complete instruction, the insert of no bytes, and applying it leaves the target
  as it is.
\<close>

theorem complete_stream_decodes:
  assumes "list_all complete_dinst is"
  shows "parseInstructions \<lparr>elems = concat (map enc_dinst is), spare = sp\<rparr>
           = Inr (map dec_dinst is, length (concat (map enc_dinst is)))
         \<and> complete_dinst (DInsert []) \<and> enc_dinst (DInsert []) = [0]
         \<and> applyInstruction src trg (dec_dinst (DInsert [])) = Inr trg"
proof -
  have "parseInstructions_loop \<lparr>elems = concat (map enc_dinst is), spare = sp\<rparr> (length ([]::byte list)) []
          = Inr ([] @ map dec_dinst is, length ([]::byte list) + length (concat (map enc_dinst is)))"
    using assms by (intro parseInstructions_loop_complete) simp_all
  then show ?thesis
    by (simp add: parseInstructions_def applyInstruction_def INST_TYPE_ADD_def INST_TYPE_COPY_def)
qed

theorem complete_stream_decodes_witness:
  "parseInstructions \<lparr>elems = [0x00, 0x02, 0x61, 0x62, 0x90, 0x01], spare = []\<rparr>
     = Inr ([\<lparr>instType = INST_TYPE_ADD, size_i = 0, offset = 0, data_i = []\<rparr>,
             \<lparr>instType = INST_TYPE_ADD, size_i = 2, offset = 0, data_i = [0x61, 0x62]\<rparr>,
             \<lparr>instType = INST_TYPE_COPY, size_i = 1, offset = 0, data_i = []\<rparr>], 6)"
  using complete_stream_decodes
    [of "[DInsert [], DInsert [0x61, 0x62], DCopy [None, None, None, None] [Some 0x01, None, None]]" "[]" "[]" "[]"]
  by (simp add: copy_opcode_def)

section \<open>External libraries\<close>

subsection \<open>SHA-1 (\<^verbatim>\<open>crypto/sha1\<close>)\<close>

text \<open>
  SHA-1 as FIPS 180 defines it, on natural numbers below \<open>2 ^ 32\<close> with the reductions
  written out. The message is padded to a multiple of 64 bytes; each block is read as
  sixteen big-endian words; the eighty rounds keep a window of the last sixteen words of
  the message schedule, whose next word is \<open>rotl 1 (w13 XOR w8 XOR w2 XOR w0)\<close>.
\<close>

definition rotl :: "nat \<Rightarrow> nat \<Rightarrow> nat" where
  "rotl n x = (x * 2 ^ n) mod 2 ^ 32 + x div 2 ^ (32 - n)"

definition len_bytes :: "nat \<Rightarrow> byte list" where
  "len_bytes n = map (\<lambda>i. of_nat (n div 2 ^ i mod 256)) [56, 48, 40, 32, 24, 16, 8, 0]"

fun zeros :: "nat \<Rightarrow> byte list" where
  "zeros k = (if k = 0 then [] else 0 # zeros (k - 1))"

definition sha1_pad :: "byte list \<Rightarrow> byte list" where
  "sha1_pad m = m @ 0x80 # zeros ((119 - length m mod 64) mod 64) @ len_bytes (8 * length m)"

fun split_n :: "nat \<Rightarrow> nat \<Rightarrow> 'a list \<Rightarrow> 'a list list" where
  "split_n k n xs = (if k = 0 then [] else take n xs # split_n (k - 1) n (drop n xs))"

declare zeros.simps [simp del] split_n.simps [simp del]

fun be32 :: "byte list \<Rightarrow> nat" where
  "be32 [a, b, c, d] = ((unat a * 256 + unat b) * 256 + unat c) * 256 + unat d"
| "be32 bs = 0"

type_synonym sha1_state = "nat \<times> nat \<times> nat \<times> nat \<times> nat"

definition sha1_ch :: "nat \<Rightarrow> nat \<Rightarrow> nat \<Rightarrow> nat" where
  "sha1_ch b c d = (b AND c) OR ((2 ^ 32 - 1 - b) AND d)"
definition sha1_parity :: "nat \<Rightarrow> nat \<Rightarrow> nat \<Rightarrow> nat" where
  "sha1_parity b c d = b XOR c XOR d"
definition sha1_maj :: "nat \<Rightarrow> nat \<Rightarrow> nat \<Rightarrow> nat" where
  "sha1_maj b c d = (b AND c) OR (b AND d) OR (c AND d)"

fun sha1_step :: "(nat \<Rightarrow> nat \<Rightarrow> nat \<Rightarrow> nat) \<Rightarrow> nat \<Rightarrow> sha1_state \<times> nat list \<Rightarrow> sha1_state \<times> nat list" where
  "sha1_step f k ((a, b, c, d, e), [w0, w1, w2, w3, w4, w5, w6, w7, w8, w9, w10, w11, w12, w13, w14, w15]) =
     (((rotl 5 a + f b c d + e + k + w0) mod 2 ^ 32, a, rotl 30 b, c, d),
      [w1, w2, w3, w4, w5, w6, w7, w8, w9, w10, w11, w12, w13, w14, w15,
       rotl 1 (w13 XOR w8 XOR w2 XOR w0)])"
| "sha1_step f k (s, w) = (s, w)"

definition iter5 :: "('a \<Rightarrow> 'a) \<Rightarrow> 'a \<Rightarrow> 'a" where
  "iter5 f x = f (f (f (f (f x))))"
definition iter20 :: "('a \<Rightarrow> 'a) \<Rightarrow> 'a \<Rightarrow> 'a" where
  "iter20 f x = iter5 f (iter5 f (iter5 f (iter5 f x)))"

definition sha1_rounds :: "sha1_state \<times> nat list \<Rightarrow> sha1_state" where
  "sha1_rounds sw =
     fst (iter20 (sha1_step sha1_parity 0xCA62C1D6)
           (iter20 (sha1_step sha1_maj 0x8F1BBCDC)
             (iter20 (sha1_step sha1_parity 0x6ED9EBA1)
               (iter20 (sha1_step sha1_ch 0x5A827999) sw))))"

fun sha1_add :: "sha1_state \<Rightarrow> sha1_state \<Rightarrow> sha1_state" where
  "sha1_add (h0, h1, h2, h3, h4) (a, b, c, d, e) =
     ((h0 + a) mod 2 ^ 32, (h1 + b) mod 2 ^ 32, (h2 + c) mod 2 ^ 32, (h3 + d) mod 2 ^ 32, (h4 + e) mod 2 ^ 32)"

definition sha1_block :: "sha1_state \<Rightarrow> byte list \<Rightarrow> sha1_state" where
  "sha1_block h blk = sha1_add h (sha1_rounds (h, map be32 (split_n 16 4 blk)))"

definition word_bytes :: "nat \<Rightarrow> byte list" where
  "word_bytes x = [of_nat (x div 2 ^ 24 mod 256), of_nat (x div 2 ^ 16 mod 256), of_nat (x div 2 ^ 8 mod 256), of_nat (x mod 256)]"

fun sha1_digest :: "sha1_state \<Rightarrow> byte list" where
  "sha1_digest (a, b, c, d, e) = word_bytes a @ word_bytes b @ word_bytes c @ word_bytes d @ word_bytes e"

definition sha1 :: "byte list \<Rightarrow> byte list" where
  "sha1 m = sha1_digest (foldl sha1_block (0x67452301, 0xEFCDAB89, 0x98BADCFE, 0x10325476, 0xC3D2E1F0)
                          (split_n (length (sha1_pad m) div 64) 64 (sha1_pad m)))"

lemmas sha1_eval = sha1_def sha1_pad_def len_bytes_def sha1_block_def sha1_rounds_def iter20_def iter5_def
  sha1_ch_def sha1_parity_def sha1_maj_def rotl_def word_bytes_def zeros.simps split_n.simps

lemma length_sha1: "length (sha1 m) = 20"
proof -
  obtain a b c d e where "foldl sha1_block (0x67452301, 0xEFCDAB89, 0x98BADCFE, 0x10325476, 0xC3D2E1F0)
                          (split_n (length (sha1_pad m) div 64) 64 (sha1_pad m)) = (a, b, c, d, e)"
    using prod_cases5 by blast
  then show ?thesis by (simp add: sha1_def word_bytes_def)
qed

text \<open>The test vector of FIPS 180 for the message \<open>abc\<close>.\<close>

lemma sha1_abc:
  "sha1 [0x61, 0x62, 0x63] =
     [0xA9, 0x99, 0x3E, 0x36, 0x47, 0x06, 0x81, 0x6A, 0xBA, 0x3E,
      0x25, 0x71, 0x78, 0x50, 0xC2, 0x6C, 0x9C, 0xD0, 0xD8, 0x9D]"
  by (simp add: sha1_eval)

subsection \<open>Hexadecimal names, strings and decimal numbers\<close>

text \<open>
  \<^verbatim>\<open>hex.EncodeToString\<close>; the conversions between a Go \<^verbatim>\<open>string\<close> and \<^verbatim>\<open>[]byte\<close>;
  \<^verbatim>\<open>fmt.Sprintf("%d", n)\<close> for a length \<open>n\<close>; and \<^verbatim>\<open>strconv.Atoi\<close> on a 64-bit
  platform: an optional sign, then one or more decimal digits, and a value that fits an
  \<^verbatim>\<open>int\<close>.
\<close>

definition hexdigit :: "nat \<Rightarrow> char" where
  "hexdigit n = ''0123456789abcdef'' ! n"

definition hex_encode :: "byte list \<Rightarrow> string" where
  "hex_encode bs = concat (map (\<lambda>b. [hexdigit (unat b div 16), hexdigit (unat b mod 16)]) bs)"

definition byte_of_char :: "char \<Rightarrow> byte" where
  "byte_of_char c = of_nat (of_char c)"

definition char_of_byte :: "byte \<Rightarrow> char" where
  "char_of_byte b = char_of (unat b)"

definition bytes_of :: "string \<Rightarrow> byte list" where
  "bytes_of s = map byte_of_char s"

definition string_of :: "byte list \<Rightarrow> string" where
  "string_of bs = map char_of_byte bs"

definition digit_char :: "nat \<Rightarrow> char" where
  "digit_char d = char_of (48 + d)"

fun show_nat :: "nat \<Rightarrow> string" where
  "show_nat n = (if n < 10 then [digit_char n] else show_nat (n div 10) @ [digit_char (n mod 10)])"

declare show_nat.simps [simp del]

definition is_digit :: "char \<Rightarrow> bool" where
  "is_digit c = (48 \<le> (of_char c :: nat) \<and> (of_char c :: nat) \<le> 57)"

definition digits_value :: "string \<Rightarrow> nat" where
  "digits_value ds = foldl (\<lambda>n c. 10 * n + (of_char c - 48)) 0 ds"

definition Atoi :: "string \<Rightarrow> int option" where
  "Atoi s =
     (let neg = (s \<noteq> [] \<and> hd s = CHR ''-'');
          ds = (if s \<noteq> [] \<and> (hd s = CHR ''-'' \<or> hd s = CHR ''+'') then tl s else s)
      in if ds = [] \<or> \<not> list_all is_digit ds then None
         else if neg then (if digits_value ds \<le> 2 ^ 63 then Some (- int (digits_value ds)) else None)
         else (if digits_value ds < 2 ^ 63 then Some (int (digits_value ds)) else None))"

fun indexByte :: "byte list \<Rightarrow> byte \<Rightarrow> nat option" where
  "indexByte [] c = None"
| "indexByte (b # bs) c = (if b = c then Some 0 else map_option Suc (indexByte bs c))"

subsection \<open>zlib (\<^verbatim>\<open>compress/zlib\<close>) and \<^verbatim>\<open>io.ReadAll\<close>\<close>

text \<open>
  The compression library is a parameter of the model. \<open>deflate\<close> is what a
  \<^verbatim>\<open>zlib.Writer\<close> produces for the data written to it (\<open>None\<close> when \<^verbatim>\<open>Write\<close> or
  \<^verbatim>\<open>Close\<close> returns an error). \<open>inflate\<close> is a \<^verbatim>\<open>zlib.Reader\<close> over a byte reader, read
  to the end: it fails in \<^verbatim>\<open>zlib.NewReader\<close> (\<open>BadHeader\<close>) or while reading
  (\<open>BadStream\<close>), or returns the decompressed bytes and the number of input bytes it
  consumed; input after the end of the stream is not read. \<open>readall_spare\<close> gives the
  bytes that the buffer returned by \<^verbatim>\<open>io.ReadAll\<close> holds between its length and its
  capacity.
\<close>

datatype zlib_failure = BadHeader | BadStream

record zlib =
  deflate :: "byte list \<Rightarrow> byte list option"
  inflate :: "byte list \<Rightarrow> zlib_failure + (byte list \<times> nat)"
  readall_spare :: "byte list \<Rightarrow> byte list"

definition compressBytes :: "zlib \<Rightarrow> byte list \<Rightarrow> error + byte list" where
  "compressBytes Z bs = (case deflate Z bs of None \<Rightarrow> Inl CompressFailed | Some c \<Rightarrow> Inr c)"

definition decompressBytes :: "zlib \<Rightarrow> byte list \<Rightarrow> error + byte list" where
  "decompressBytes Z bs = (case inflate Z bs of Inl e \<Rightarrow> Inl DecompressFailed | Inr (out, n) \<Rightarrow> Inr out)"

section \<open>The object store\<close>

text \<open>
  The file system under the working directory: the regular files with their contents,
  and the paths at which the operating system refuses to create a directory or to write
  a file (whatever the reason). \<^verbatim>\<open>os.ReadFile\<close> fails on a path that holds no file.
  \<^verbatim>\<open>filepath.Join\<close> joins the non-empty elements with a slash; the elements here are
  the constant \<^verbatim>\<open>.git/objects\<close> and parts of a hexadecimal name, which it leaves as
  they are.
\<close>

record fs =
  files :: "string \<rightharpoonup> byte list"
  denied :: "string set"

fun filepath_Join :: "string list \<Rightarrow> string" where
  "filepath_Join [] = []"
| "filepath_Join (e # es) =
     (if e = [] then filepath_Join es
      else if filepath_Join es = [] then e
      else e @ ''/'' @ filepath_Join es)"

text \<open>\<^verbatim>\<open>writeObject\<close> (main.go, lines 445-475). On an error no file has been written.\<close>

definition writeObject :: "zlib \<Rightarrow> fs \<Rightarrow> byte list \<Rightarrow> string \<Rightarrow> error + fs" where
  "writeObject Z st content objType =
     (let header = objType @ '' '' @ show_nat (length content);
          objContent = bytes_of header @ [0x00] @ content;
          hash = hex_encode (sha1 objContent);
          objDirPath = filepath_Join [''.git/objects'', take 2 hash]
      in if objDirPath \<in> denied st then Inl (MkdirFailed objDirPath)
         else
           (let objPath = filepath_Join [objDirPath, drop 2 hash]
            in case compressBytes Z objContent of
                 Inl e \<Rightarrow> Inl CompressFailed
               | Inr compressed \<Rightarrow>
                   if objPath \<in> denied st then Inl (WriteFileFailed objPath)
                   else Inr (st\<lparr>files := (files st)(objPath \<mapsto> compressed)\<rparr>)))"

text \<open>
  \<^verbatim>\<open>readObject\<close> (main.go, lines 477-521). \<^verbatim>\<open>hash[:2]\<close> panics on a string shorter
  than two bytes.
\<close>

definition readObject :: "zlib \<Rightarrow> fs \<Rightarrow> string \<Rightarrow> error + (byte list \<times> string)" where
  "readObject Z st hash =
     (if length hash < 2 then Inl Panic
      else
        (let objPath = filepath_Join [''.git/objects'', take 2 hash, drop 2 hash]
         in case files st objPath of
              None \<Rightarrow> Inl (ReadFileFailed objPath)
            | Some file \<Rightarrow>
                (case decompressBytes Z file of
                   Inl e \<Rightarrow> Inl DecompressFailed
                 | Inr objContent \<Rightarrow>
                     (case indexByte objContent 0 of
                        None \<Rightarrow> Inl (NoNullByte objPath)
                      | Some nullIdx \<Rightarrow>
                          (let header = take nullIdx objContent;
                               content = drop (nullIdx + 1) objContent
                           in case indexByte header (byte_of_char CHR '' '') of
                                None \<Rightarrow> Inl (NoSpaceByte objPath)
                              | Some spaceIdx \<Rightarrow>
                                  (let objType = string_of (take spaceIdx header)
                                   in case Atoi (string_of (drop (spaceIdx + 1) header)) of
                                        None \<Rightarrow> Inl InvalidSize
                                      | Some size' \<Rightarrow>
                                          if size' \<noteq> int (length content)
                                            then Inl (DeclaredSizeMismatch size' (length content))
                                          else Inr (content, objType)))))))"

subsection \<open>Strings and bytes\<close>

lemma of_char_less_256: "(of_char c :: nat) < 256"
proof -
  have "(of_char c :: nat) mod 256 = of_char c" by (rule of_char_mod_256)
  then show ?thesis by (metis mod_less_divisor zero_less_numeral)
qed

lemma unat_byte_of_char: "unat (byte_of_char c) = of_char c"
  using of_char_less_256 [of c] by (simp add: byte_of_char_def unat_of_nat)

lemma char_of_byte_of_char [simp]: "char_of_byte (byte_of_char c) = c"
  by (simp add: char_of_byte_def unat_byte_of_char)

lemma string_of_bytes_of [simp]: "string_of (bytes_of s) = s"
  by (induction s) (simp_all add: string_of_def bytes_of_def)

lemma byte_of_char_eq_iff [simp]: "byte_of_char c = byte_of_char d \<longleftrightarrow> c = d"
  by (metis char_of_byte_of_char)

lemma byte_of_char_nul [simp]: "byte_of_char c = 0 \<longleftrightarrow> c = CHR 0x00"
proof -
  have "byte_of_char (CHR 0x00) = 0" by (simp add: byte_of_char_def)
  then show ?thesis by (metis byte_of_char_eq_iff)
qed

lemma bytes_of_append [simp]: "bytes_of (s @ t) = bytes_of s @ bytes_of t"
  by (simp add: bytes_of_def)

lemma bytes_of_Cons [simp]: "bytes_of (c # s) = byte_of_char c # bytes_of s"
  by (simp add: bytes_of_def)

lemma bytes_of_Nil [simp]: "bytes_of [] = []"
  by (simp add: bytes_of_def)

lemma length_bytes_of [simp]: "length (bytes_of s) = length s"
  by (simp add: bytes_of_def)

lemma byte_in_bytes_of [simp]: "byte_of_char c \<in> set (bytes_of s) \<longleftrightarrow> c \<in> set s"
  by (auto simp: bytes_of_def)

lemma nul_in_bytes_of [simp]: "0 \<in> set (bytes_of s) \<longleftrightarrow> CHR 0x00 \<in> set s"
  using byte_in_bytes_of [of "CHR 0x00" s] by (simp add: byte_of_char_def)

subsection \<open>\<^verbatim>\<open>bytes.IndexByte\<close>\<close>

lemma indexByte_first: "c \<notin> set xs \<Longrightarrow> indexByte (xs @ c # ys) c = Some (length xs)"
  by (induction xs) auto

lemma indexByte_None: "indexByte xs c = None \<longleftrightarrow> c \<notin> set xs"
  by (induction xs) auto

lemma indexByte_Some:
  "indexByte xs c = Some i \<Longrightarrow> xs = take i xs @ c # drop (Suc i) xs \<and> c \<notin> set (take i xs)"
proof (induction xs arbitrary: i)
  case Nil
  then show ?case by simp
next
  case (Cons b bs)
  show ?case
  proof (cases "b = c")
    case True
    with Cons.prems show ?thesis by simp
  next
    case False
    with Cons.prems obtain j where j: "indexByte bs c = Some j" "i = Suc j" by auto
    from Cons.IH [OF j(1)] False j(2) show ?thesis by simp
  qed
qed

subsection \<open>Decimal numbers\<close>

lemma of_char_digit_char: "d < 10 \<Longrightarrow> (of_char (digit_char d) :: nat) = 48 + d"
  by (simp add: digit_char_def)

lemma is_digit_digit_char: "d < 10 \<Longrightarrow> is_digit (digit_char d)"
  by (simp add: is_digit_def of_char_digit_char)

lemma show_nat_digits: "list_all is_digit (show_nat n)"
proof (induction n rule: show_nat.induct)
  case (1 n)
  then show ?case
    by (subst show_nat.simps) (auto simp: is_digit_digit_char)
qed

lemma show_nat_nonempty: "show_nat n \<noteq> []"
  by (subst show_nat.simps) simp

lemma digits_value_snoc: "digits_value (ds @ [c]) = 10 * digits_value ds + (of_char c - 48)"
  by (simp add: digits_value_def)

lemma digits_value_show_nat: "digits_value (show_nat n) = n"
proof (induction n rule: show_nat.induct)
  case (1 n)
  show ?case
  proof (cases "n < 10")
    case True
    then show ?thesis
      by (subst show_nat.simps) (simp add: digits_value_def of_char_digit_char)
  next
    case False
    then have "digits_value (show_nat (n div 10)) = n div 10" using "1.IH" by simp
    with False show ?thesis
      by (subst show_nat.simps) (simp add: digits_value_snoc of_char_digit_char)
  qed
qed

lemma is_digit_not_sign: "is_digit c \<Longrightarrow> c \<noteq> CHR ''-'' \<and> c \<noteq> CHR ''+'' \<and> c \<noteq> CHR '' '' \<and> c \<noteq> CHR 0x00"
  by (auto simp: is_digit_def)

lemma Atoi_show_nat: "n < 2 ^ 63 \<Longrightarrow> Atoi (show_nat n) = Some (int n)"
proof -
  assume n: "n < 2 ^ 63"
  have ne: "show_nat n \<noteq> []" by (rule show_nat_nonempty)
  have "is_digit (hd (show_nat n))"
    using show_nat_digits [of n] ne by (cases "show_nat n") simp_all
  then have "hd (show_nat n) \<noteq> CHR ''-''" "hd (show_nat n) \<noteq> CHR ''+''"
    using is_digit_not_sign by blast+
  then show ?thesis
    using n ne show_nat_digits [of n] by (simp add: Atoi_def digits_value_show_nat)
qed

lemma show_nat_no_sep: "CHR '' '' \<notin> set (show_nat n) \<and> CHR 0x00 \<notin> set (show_nat n)"
  using show_nat_digits [of n] is_digit_not_sign by (auto simp: list_all_iff)

subsection \<open>Hexadecimal names and paths\<close>

lemma length_hex_encode: "length (hex_encode bs) = 2 * length bs"
  by (induction bs) (simp_all add: hex_encode_def)

lemma length_hex_sha1 [simp]: "length (hex_encode (sha1 m)) = 40"
  by (simp add: length_hex_encode length_sha1)

lemma objPath_Join:
  assumes "2 < length h"
  shows "filepath_Join [''.git/objects'', take 2 h, drop 2 h] = ''.git/objects/'' @ take 2 h @ ''/'' @ drop 2 h"
    and "filepath_Join [''.git/objects'', take 2 h] = ''.git/objects/'' @ take 2 h"
    and "filepath_Join [''.git/objects/'' @ take 2 h, drop 2 h]
           = ''.git/objects/'' @ take 2 h @ ''/'' @ drop 2 h"
  using assms by (cases h; auto)+

declare filepath_Join.simps [simp del]

subsection \<open>Writing an object and reading it back\<close>

text \<open>
  The statement of the store's contract, independent of \<^verbatim>\<open>writeObject\<close>: the four object
  kinds, the framed serialization \<^verbatim>\<open><kind> <decimal-size>\0<payload>\<close>, the path of an
  object name, and what is asked of the compression library for one byte sequence:
  what it compresses, it decompresses to the same bytes.
\<close>

definition object_kinds :: "string set" where
  "object_kinds = {''commit'', ''tree'', ''blob'', ''tag''}"

definition framed :: "string \<Rightarrow> byte list \<Rightarrow> byte list" where
  "framed kind payload =
     bytes_of kind @ byte_of_char CHR '' '' # bytes_of (show_nat (length payload)) @ 0 # payload"

definition oid_path :: "string \<Rightarrow> string" where
  "oid_path oid = ''.git/objects/'' @ take 2 oid @ ''/'' @ drop 2 oid"

definition zlib_roundtrip :: "zlib \<Rightarrow> byte list \<Rightarrow> bool" where
  "zlib_roundtrip Z x =
     (case deflate Z x of
        None \<Rightarrow> True
      | Some c \<Rightarrow> (case inflate Z c of Inl e \<Rightarrow> False | Inr (y, n) \<Rightarrow> y = x))"

lemma readObject_framed:
  assumes kind: "CHR '' '' \<notin> set kind" "CHR 0x00 \<notin> set kind"
    and len: "length payload < 2 ^ 63"
    and h: "2 < length h"
    and fl: "files st (oid_path h) = Some c"
    and inf: "inflate Z c = Inr (framed kind payload, n)"
  shows "readObject Z st h = Inr (payload, kind)"
proof -
  define hdr where "hdr = bytes_of kind @ byte_of_char CHR '' '' # bytes_of (show_nat (length payload))"
  define k where "k = length hdr"
  define j where "j = length (bytes_of kind)"
  define obj where "obj = framed kind payload"
  have fr: "obj = hdr @ 0 # payload" by (simp add: framed_def hdr_def obj_def)
  have nonul: "0 \<notin> set hdr"
    using kind(2) show_nat_no_sep [of "length payload"] by (simp add: byte_of_char_def hdr_def)
  have i0: "indexByte obj 0 = Some k"
    unfolding fr k_def using nonul by (rule indexByte_first)
  have tk: "take k obj = hdr" and dr: "drop (k + 1) obj = payload"
    unfolding fr k_def by simp_all
  have "byte_of_char CHR '' '' \<notin> set (bytes_of kind)" using kind(1) by simp
  then have i1: "indexByte hdr (byte_of_char CHR '' '') = Some j"
    unfolding hdr_def j_def by (rule indexByte_first)
  have t2: "string_of (take j hdr) = kind" by (simp add: hdr_def j_def)
  have d2: "string_of (drop (Suc j) hdr) = show_nat (length payload)" by (simp add: hdr_def j_def)
  have dr': "drop (Suc k) obj = payload" using dr by simp
  have p: "filepath_Join [''.git/objects'', take 2 h, drop 2 h] = oid_path h"
    using objPath_Join(1) [OF h] by (simp add: oid_path_def)
  have dec: "decompressBytes Z c = Inr obj"
    by (simp add: decompressBytes_def inf obj_def)
  show ?thesis
    unfolding readObject_def Let_def p
    using h by (simp add: fl dec i0 tk dr dr' i1 t2 d2 Atoi_show_nat [OF len])
qed

lemma writeObject_unfold:
  "writeObject Z st payload kind =
     (if ''.git/objects/'' @ take 2 (hex_encode (sha1 (framed kind payload))) \<in> denied st
        then Inl (MkdirFailed (''.git/objects/'' @ take 2 (hex_encode (sha1 (framed kind payload)))))
      else case deflate Z (framed kind payload) of
             None \<Rightarrow> Inl CompressFailed
           | Some c \<Rightarrow>
               if oid_path (hex_encode (sha1 (framed kind payload))) \<in> denied st
                 then Inl (WriteFileFailed (oid_path (hex_encode (sha1 (framed kind payload)))))
               else Inr (st\<lparr>files := (files st)(oid_path (hex_encode (sha1 (framed kind payload))) \<mapsto> c)\<rparr>))"
proof -
  have fr: "bytes_of (kind @ '' '' @ show_nat (length payload)) @ [0x00] @ payload = framed kind payload"
    by (simp add: framed_def)
  have "2 < length (hex_encode (sha1 (framed kind payload)))" by simp
  note p = objPath_Join(2,3) [OF this]
  show ?thesis
    unfolding writeObject_def Let_def fr p
    by (simp add: oid_path_def compressBytes_def split: option.splits)
qed

lemma object_kinds_clean: "kind \<in> object_kinds \<Longrightarrow> CHR '' '' \<notin> set kind \<and> CHR 0x00 \<notin> set kind"
  by (auto simp: object_kinds_def)

text \<open>
  Claim C7. For every kind and payload that \<^verbatim>\<open>writeObject\<close> writes successfully, the
  object name is the SHA-1 of the framed serialization (forty hexadecimal digits), the
  file written is the compressed serialization at
  \<^verbatim>\<open>.git/objects/<first 2 digits>/<remaining 38>\<close>, \<^verbatim>\<open>readObject\<close> on that name returns the
  same payload and kind, and writing the same object again succeeds and leaves the
  store as it is (same path, same bytes). The payload is a Go slice, so its length is
  below \<open>2 ^ 63\<close>.
\<close>

theorem writeObject_readObject_roundtrip:
  assumes "kind \<in> object_kinds" and "length payload < 2 ^ 63"
    and "zlib_roundtrip Z (framed kind payload)"
    and "writeObject Z st payload kind = Inr st'"
    and "oid = hex_encode (sha1 (framed kind payload))"
  shows "length oid = 40
         \<and> (\<exists>c. deflate Z (framed kind payload) = Some c
                \<and> st' = st\<lparr>files := (files st)(''.git/objects/'' @ take 2 oid @ ''/'' @ drop 2 oid \<mapsto> c)\<rparr>)
         \<and> readObject Z st' oid = Inr (payload, kind)
         \<and> writeObject Z st' payload kind = Inr st'"
proof -
  from assms(4) obtain c where c: "deflate Z (framed kind payload) = Some c"
    and nd: "''.git/objects/'' @ take 2 oid \<notin> denied st" "oid_path oid \<notin> denied st"
    and st': "st' = st\<lparr>files := (files st)(oid_path oid \<mapsto> c)\<rparr>"
    unfolding writeObject_unfold assms(5)
    by (auto split: if_splits option.splits)
  from assms(3) c obtain n where inf: "inflate Z c = Inr (framed kind payload, n)"
    by (auto simp: zlib_roundtrip_def split: sum.splits)
  have l: "length oid = 40" by (simp add: assms(5))
  have r: "readObject Z st' oid = Inr (payload, kind)"
  proof (rule readObject_framed)
    show "CHR '' '' \<notin> set kind" "CHR 0x00 \<notin> set kind"
      using object_kinds_clean [OF assms(1)] by simp_all
    show "length payload < 2 ^ 63" by (rule assms(2))
    show "2 < length oid" using l by simp
    show "files st' (oid_path oid) = Some c" by (simp add: st')
    show "inflate Z c = Inr (framed kind payload, n)" by (rule inf)
  qed
  have w: "writeObject Z st' payload kind = Inr st'"
    unfolding writeObject_unfold using c nd by (simp add: st' assms(5) [symmetric])
  show ?thesis
    using l c st' r w by (simp add: oid_path_def)
qed

subsection \<open>A zlib for concrete inputs: stored blocks\<close>

text \<open>
  For evaluating the program on concrete bytes, one instance of the library: zlib
  streams whose deflate data is a single stored (uncompressed) block, as a
  \<^verbatim>\<open>zlib.Writer\<close> of level 0 writes them for less than 64 KiB: the header \<open>78 01\<close>, the
  block header \<open>01\<close>, the length and its complement (little-endian), the data, and the
  Adler-32 checksum of the data (big-endian). The reader of the instance refuses every
  other stream. \<^verbatim>\<open>io.ReadAll\<close> starts with a buffer of capacity 512, zero-filled.
\<close>

definition adler32 :: "byte list \<Rightarrow> nat \<times> nat" where
  "adler32 bs = foldl (\<lambda>(a, b) x. ((a + unat x) mod 65521, (b + (a + unat x) mod 65521) mod 65521)) (1, 0) bs"

definition adler_bytes :: "byte list \<Rightarrow> byte list" where
  "adler_bytes bs =
     (case adler32 bs of
        (a, b) \<Rightarrow> [of_nat (b div 256), of_nat (b mod 256), of_nat (a div 256), of_nat (a mod 256)])"

definition stored_deflate :: "byte list \<Rightarrow> byte list option" where
  "stored_deflate bs =
     (if length bs < 65536
      then Some ([0x78, 0x01, 0x01,
                  of_nat (length bs mod 256), of_nat (length bs div 256),
                  of_nat ((65535 - length bs) mod 256), of_nat ((65535 - length bs) div 256)]
                 @ bs @ adler_bytes bs)
      else None)"

fun stored_inflate :: "byte list \<Rightarrow> zlib_failure + (byte list \<times> nat)" where
  "stored_inflate (c0 # c1 # rest) =
     (if c0 AND 0x0F \<noteq> 8 \<or> 7 < unat (drop_bit 4 c0) \<or> (unat c0 * 256 + unat c1) mod 31 \<noteq> 0
         \<or> c1 AND 0x20 \<noteq> 0
      then Inl BadHeader
      else
        (case rest of
           h # l0 # l1 # n0 # n1 # body \<Rightarrow>
             if h \<noteq> 0x01 \<or> unat n0 + 256 * unat n1 \<noteq> 65535 - (unat l0 + 256 * unat l1)
                \<or> length body < unat l0 + 256 * unat l1 + 4
                \<or> take 4 (drop (unat l0 + 256 * unat l1) body)
                     \<noteq> adler_bytes (take (unat l0 + 256 * unat l1) body)
             then Inl BadStream
             else Inr (take (unat l0 + 256 * unat l1) body, 11 + (unat l0 + 256 * unat l1))
         | _ \<Rightarrow> Inl BadStream))"
| "stored_inflate bs = Inl BadHeader"

definition stored_zlib :: zlib where
  "stored_zlib = \<lparr>deflate = stored_deflate, inflate = stored_inflate,
                   readall_spare = (\<lambda>raw. replicate (512 - length raw) 0)\<rparr>"

definition empty_fs :: fs where
  "empty_fs = \<lparr>files = Map.empty, denied = {}\<rparr>"

lemmas store_eval = stored_zlib_def stored_deflate_def adler_bytes_def adler32_def
  framed_def show_nat.simps digit_char_def byte_of_char_def zlib_roundtrip_def empty_fs_def

lemma framed_blob_a: "framed ''blob'' [0x61] = [0x62, 0x6c, 0x6f, 0x62, 0x20, 0x31, 0x00, 0x61]"
  by (simp add: store_eval)

lemma stored_deflate_blob_a:
  "stored_deflate [0x62, 0x6c, 0x6f, 0x62, 0x20, 0x31, 0x00, 0x61]
     = Some [0x78, 0x01, 0x01, 0x08, 0x00, 0xf7, 0xff, 0x62, 0x6c, 0x6f, 0x62, 0x20, 0x31, 0x00, 0x61,
             0x0c, 0x04, 0x02, 0x52]"
  by (simp add: store_eval)

lemma stored_inflate_blob_a:
  "stored_inflate [0x78, 0x01, 0x01, 0x08, 0x00, 0xf7, 0xff, 0x62, 0x6c, 0x6f, 0x62, 0x20, 0x31, 0x00, 0x61,
                   0x0c, 0x04, 0x02, 0x52]
     = Inr ([0x62, 0x6c, 0x6f, 0x62, 0x20, 0x31, 0x00, 0x61], 19)"
  by (simp add: store_eval)

text \<open>The name of the blob \<open>a\<close>, as \<^verbatim>\<open>git hash-object\<close> prints it.\<close>

lemma oid_blob_a:
  "hex_encode (sha1 [0x62, 0x6c, 0x6f, 0x62, 0x20, 0x31, 0x00, 0x61])
     = ''2e65efe2a145dda7ee51d1741299f848e5bf752e''"
  by (simp add: sha1_eval hex_encode_def hexdigit_def)

theorem writeObject_readObject_roundtrip_witness:
  "readObject stored_zlib
     (empty_fs\<lparr>files := (files empty_fs)
        (''.git/objects/'' @ take 2 (hex_encode (sha1 (framed ''blob'' [0x61]))) @ ''/''
           @ drop 2 (hex_encode (sha1 (framed ''blob'' [0x61])))
         \<mapsto> [0x78, 0x01, 0x01, 0x08, 0x00, 0xf7, 0xff, 0x62, 0x6c, 0x6f, 0x62, 0x20, 0x31, 0x00, 0x61,
             0x0c, 0x04, 0x02, 0x52])\<rparr>)
     (hex_encode (sha1 (framed ''blob'' [0x61]))) = Inr ([0x61], ''blob'')"
proof -
  let ?oid = "hex_encode (sha1 (framed ''blob'' [0x61]))"
  let ?c = "[0x78, 0x01, 0x01, 0x08, 0x00, 0xf7, 0xff, 0x62, 0x6c, 0x6f, 0x62, 0x20, 0x31, 0x00, 0x61,
             0x0c, 0x04, 0x02, 0x52] :: byte list"
  let ?st' = "empty_fs\<lparr>files := (files empty_fs)(oid_path ?oid \<mapsto> ?c)\<rparr>"
  have k: "''blob'' \<in> object_kinds" by (simp add: object_kinds_def)
  have l: "length [0x61 :: byte] < 2 ^ 63" by simp
  have d: "deflate stored_zlib (framed ''blob'' [0x61]) = Some ?c"
    using stored_deflate_blob_a by (simp add: framed_blob_a stored_zlib_def)
  have i: "inflate stored_zlib ?c = Inr (framed ''blob'' [0x61], 19)"
    using stored_inflate_blob_a by (simp add: framed_blob_a stored_zlib_def)
  have z: "zlib_roundtrip stored_zlib (framed ''blob'' [0x61])"
    by (simp add: zlib_roundtrip_def d i)
  have w: "writeObject stored_zlib empty_fs [0x61] ''blob'' = Inr ?st'"
    by (simp add: writeObject_unfold d) (simp add: empty_fs_def)
  show ?thesis
    using writeObject_readObject_roundtrip [OF k l z w refl] by (simp add: oid_path_def)
qed

subsection \<open>What \<^verbatim>\<open>readObject\<close> accepts\<close>

lemma byte_of_char_of_byte [simp]: "byte_of_char (char_of_byte b) = b"
proof -
  have "unat b < 256" using unsigned_less [of b] by simp
  then show ?thesis by (simp add: byte_of_char_def char_of_byte_def)
qed

lemma bytes_of_string_of [simp]: "bytes_of (string_of bs) = bs"
  by (induction bs) (simp_all add: string_of_def bytes_of_def)

lemma in_set_string_of: "c \<in> set (string_of bs) \<longleftrightarrow> byte_of_char c \<in> set bs"
proof -
  have "c \<in> set (string_of bs) \<longleftrightarrow> byte_of_char c \<in> set (bytes_of (string_of bs))"
    by (simp only: byte_in_bytes_of)
  then show ?thesis by simp
qed

lemma Atoi_Some_no_nul: "Atoi s = Some v \<Longrightarrow> CHR 0x00 \<notin> set s"
proof -
  assume a: "Atoi s = Some v"
  define ds where "ds = (if s \<noteq> [] \<and> (hd s = CHR ''-'' \<or> hd s = CHR ''+'') then tl s else s)"
  from a have "list_all is_digit ds"
    by (auto simp: Atoi_def Let_def ds_def split: if_splits)
  then have nd: "CHR 0x00 \<notin> set ds"
    using is_digit_not_sign by (auto simp: list_all_iff)
  show ?thesis
  proof (cases "s \<noteq> [] \<and> (hd s = CHR ''-'' \<or> hd s = CHR ''+'')")
    case True
    then obtain c where "s = c # ds" "c = CHR ''-'' \<or> c = CHR ''+''"
      by (cases s) (auto simp: ds_def)
    with nd show ?thesis by auto
  next
    case False
    then show ?thesis using nd by (auto simp: ds_def)
  qed
qed

lemma readObject_header:
  assumes h: "2 < length h"
    and fl: "files st (oid_path h) = Some file"
    and inf: "inflate Z file = Inr (bytes_of kind @ byte_of_char CHR '' '' # bytes_of sz @ 0 # payload, n)"
    and kind: "CHR '' '' \<notin> set kind" "CHR 0x00 \<notin> set kind" and sz: "CHR 0x00 \<notin> set sz"
  shows "readObject Z st h =
           (case Atoi sz of
              None \<Rightarrow> Inl InvalidSize
            | Some v \<Rightarrow> if v \<noteq> int (length payload) then Inl (DeclaredSizeMismatch v (length payload))
                        else Inr (payload, kind))"
proof -
  define hdr where "hdr = bytes_of kind @ byte_of_char CHR '' '' # bytes_of sz"
  define k where "k = length hdr"
  define j where "j = length (bytes_of kind)"
  define obj where "obj = hdr @ 0 # payload"
  have nonul: "0 \<notin> set hdr"
    using kind(2) sz by (simp add: byte_of_char_def hdr_def)
  have i0: "indexByte obj 0 = Some k"
    unfolding obj_def k_def using nonul by (rule indexByte_first)
  have tk: "take k obj = hdr" and dr: "drop (k + 1) obj = payload" "drop (Suc k) obj = payload"
    unfolding obj_def k_def by simp_all
  have "byte_of_char CHR '' '' \<notin> set (bytes_of kind)" using kind(1) by simp
  then have i1: "indexByte hdr (byte_of_char CHR '' '') = Some j"
    unfolding hdr_def j_def by (rule indexByte_first)
  have t2: "string_of (take j hdr) = kind" by (simp add: hdr_def j_def)
  have d2: "string_of (drop (Suc j) hdr) = sz" by (simp add: hdr_def j_def)
  have p: "filepath_Join [''.git/objects'', take 2 h, drop 2 h] = oid_path h"
    using objPath_Join(1) [OF h] by (simp add: oid_path_def)
  have dec: "decompressBytes Z file = Inr obj"
    using inf by (simp add: decompressBytes_def obj_def hdr_def)
  show ?thesis
    unfolding readObject_def Let_def p
    using h by (simp add: fl dec i0 tk dr i1 t2 d2 split: option.splits)
qed

text \<open>
  Claim C8, as amended. \<^verbatim>\<open>readObject\<close> decompresses the file of the name and splits it
  at the first NUL byte; it succeeds exactly when the part before the NUL is
  \<^verbatim>\<open><kind> <size>\<close>, split at its first space, and \<^verbatim>\<open>strconv.Atoi\<close> reads \<^verbatim>\<open><size>\<close> as
  the byte length of the payload. The kind is whatever precedes the first space: it is
  returned as it is and not compared with the object kinds.
\<close>

theorem readObject_succeeds_iff:
  assumes "2 < length h"
  shows "readObject Z st h = Inr (payload, kind) \<longleftrightarrow>
           (\<exists>file n sz. files st (oid_path h) = Some file
              \<and> inflate Z file = Inr (bytes_of kind @ byte_of_char CHR '' '' # bytes_of sz @ 0 # payload, n)
              \<and> CHR '' '' \<notin> set kind \<and> CHR 0x00 \<notin> set kind
              \<and> Atoi sz = Some (int (length payload)))"
proof
  assume "\<exists>file n sz. files st (oid_path h) = Some file
              \<and> inflate Z file = Inr (bytes_of kind @ byte_of_char CHR '' '' # bytes_of sz @ 0 # payload, n)
              \<and> CHR '' '' \<notin> set kind \<and> CHR 0x00 \<notin> set kind
              \<and> Atoi sz = Some (int (length payload))"
  then obtain f n sz where a: "files st (oid_path h) = Some f"
      "inflate Z f = Inr (bytes_of kind @ byte_of_char CHR '' '' # bytes_of sz @ 0 # payload, n)"
      "CHR '' '' \<notin> set kind" "CHR 0x00 \<notin> set kind" "Atoi sz = Some (int (length payload))"
    by blast
  have "CHR 0x00 \<notin> set sz" using a(5) by (rule Atoi_Some_no_nul)
  from readObject_header [OF assms a(1,2,3,4) this] a(5)
  show "readObject Z st h = Inr (payload, kind)" by simp
next
  assume r: "readObject Z st h = Inr (payload, kind)"
  have p: "filepath_Join [''.git/objects'', take 2 h, drop 2 h] = oid_path h"
    using objPath_Join(1) [OF assms] by (simp add: oid_path_def)
  from r assms obtain f obj k j v where
    fl: "files st (oid_path h) = Some f"
    and dec: "decompressBytes Z f = Inr obj"
    and i0: "indexByte obj 0 = Some k"
    and i1: "indexByte (take k obj) (byte_of_char CHR '' '') = Some j"
    and at: "Atoi (string_of (drop (j + 1) (take k obj))) = Some v"
    and v: "v = int (length (drop (k + 1) obj))"
    and pl: "payload = drop (k + 1) obj"
    and kd: "kind = string_of (take j (take k obj))"
    unfolding readObject_def Let_def p
    by (auto split: option.splits sum.splits if_splits)
  from dec obtain n where inf: "inflate Z f = Inr (obj, n)"
    by (auto simp: decompressBytes_def split: sum.splits)
  define hdr where "hdr = take k obj"
  define sz where "sz = string_of (drop (j + 1) hdr)"
  from indexByte_Some [OF i0] have o: "obj = hdr @ 0 # payload" and n0: "0 \<notin> set hdr"
    by (simp_all add: hdr_def pl)
  from indexByte_Some [OF i1] have hd: "hdr = take j hdr @ byte_of_char CHR '' '' # drop (Suc j) hdr"
    and ns: "byte_of_char CHR '' '' \<notin> set (take j hdr)"
    by (simp_all add: hdr_def)
  have "bytes_of kind = take j hdr" by (simp add: kd hdr_def)
  moreover have "bytes_of sz = drop (Suc j) hdr" by (simp add: sz_def)
  ultimately have "obj = bytes_of kind @ byte_of_char CHR '' '' # bytes_of sz @ 0 # payload"
    using o hd by simp
  moreover have "CHR '' '' \<notin> set kind"
    using ns by (simp add: kd hdr_def in_set_string_of)
  moreover have "CHR 0x00 \<notin> set kind"
  proof
    assume "CHR 0x00 \<in> set kind"
    then have "byte_of_char (CHR 0x00) \<in> set (take j hdr)"
      by (simp add: kd hdr_def in_set_string_of)
    then have "0 \<in> set (take j hdr)" by (simp add: byte_of_char_def)
    then have "0 \<in> set hdr" by (rule in_set_takeD)
    with n0 show False by simp
  qed
  moreover have "Atoi sz = Some (int (length payload))"
    using at v by (simp add: sz_def hdr_def pl)
  ultimately show "\<exists>file n sz. files st (oid_path h) = Some file
              \<and> inflate Z file = Inr (bytes_of kind @ byte_of_char CHR '' '' # bytes_of sz @ 0 # payload, n)
              \<and> CHR '' '' \<notin> set kind \<and> CHR 0x00 \<notin> set kind
              \<and> Atoi sz = Some (int (length payload))"
    using fl inf by blast
qed

lemmas read_eval = readObject_def decompressBytes_def filepath_Join.simps Atoi_def is_digit_def
  digits_value_def string_of_def char_of_byte_def byte_of_char_def stored_zlib_def adler_bytes_def char_of_def bit_0
  adler32_def

theorem readObject_succeeds_iff_witness:
  "readObject stored_zlib
     \<lparr>files = [''.git/objects/2e/65efe2a145dda7ee51d1741299f848e5bf752e'' \<mapsto>
                [0x78, 0x01, 0x01, 0x08, 0x00, 0xf7, 0xff, 0x62, 0x6c, 0x6f, 0x62, 0x20, 0x31, 0x00, 0x61,
                 0x0c, 0x04, 0x02, 0x52]],
      denied = {}\<rparr>
     ''2e65efe2a145dda7ee51d1741299f848e5bf752e'' = Inr ([0x61], ''blob'')"
proof -
  let ?c = "[0x78, 0x01, 0x01, 0x08, 0x00, 0xf7, 0xff, 0x62, 0x6c, 0x6f, 0x62, 0x20, 0x31, 0x00, 0x61,
             0x0c, 0x04, 0x02, 0x52] :: byte list"
  let ?st = "\<lparr>files = [''.git/objects/2e/65efe2a145dda7ee51d1741299f848e5bf752e'' \<mapsto> ?c], denied = {}\<rparr>"
  let ?h = "''2e65efe2a145dda7ee51d1741299f848e5bf752e''"
  have h: "2 < length ?h" by simp
  have f: "files ?st (oid_path ?h) = Some ?c" by (simp add: oid_path_def)
  have i: "inflate stored_zlib ?c
             = Inr (bytes_of ''blob'' @ byte_of_char CHR '' '' # bytes_of ''1'' @ 0 # [0x61], 19)"
    using stored_inflate_blob_a by (simp add: stored_zlib_def byte_of_char_def)
  have a: "Atoi ''1'' = Some (int (length [0x61 :: byte]))"
    by (simp add: Atoi_def is_digit_def digits_value_def)
  have "\<exists>file n sz. files ?st (oid_path ?h) = Some file
          \<and> inflate stored_zlib file
              = Inr (bytes_of ''blob'' @ byte_of_char CHR '' '' # bytes_of sz @ 0 # [0x61], n)
          \<and> CHR '' '' \<notin> set ''blob'' \<and> CHR 0x00 \<notin> set ''blob''
          \<and> Atoi sz = Some (int (length [0x61 :: byte]))"
    using f i a by (intro exI [of _ ?c] exI [of _ 19] exI [of _ "''1''"]) simp
  then show ?thesis
    using readObject_succeeds_iff [OF h, of stored_zlib ?st "[0x61]" "''blob''"] by blast
qed

text \<open>
  Claim C8 says that an object file whose header names an unrecognized kind is
  rejected. The file below holds \<^verbatim>\<open>foo 3\0abc\<close> (as a zlib stream of one stored block);
  \<^verbatim>\<open>readObject\<close> returns the payload \<open>abc\<close> and the kind \<open>foo\<close>.
\<close>

theorem readObject_unrecognized_kind_counterexample:
  "readObject stored_zlib
     \<lparr>files = [''.git/objects/34/2e708865ce77ac7a82ea01336b81e3be8abf30'' \<mapsto>
                [0x78, 0x01, 0x01, 0x09, 0x00, 0xf6, 0xff, 0x66, 0x6f, 0x6f, 0x20, 0x33, 0x00,
                 0x61, 0x62, 0x63, 0x0e, 0x29, 0x02, 0xbe]],
      denied = {}\<rparr>
     ''342e708865ce77ac7a82ea01336b81e3be8abf30'' = Inr ([0x61, 0x62, 0x63], ''foo'')
   \<and> ''foo'' \<notin> object_kinds"
  by (simp add: read_eval object_kinds_def)

end
